theory Spec2Isabelle
  imports Main
begin

section \<open>Data model\<close>

text \<open>
  The interface \<^verbatim>\<open>RGANode\<close> of the source. The fields \<^verbatim>\<open>id\<close> and \<^verbatim>\<open>value\<close> clash
  with names of HOL and are suffixed. \<^verbatim>\<open>timestamp: number\<close> holds the integers that
  \<^verbatim>\<open>Date.now()\<close> and the example data supply; \<^verbatim>\<open>previousId: string | null\<close> is an option.
\<close>

datatype user = User1 | User2

record RGANode =
  id_node :: string
  value_node :: string
  timestamp :: int
  previousId :: "string option"
  removed :: bool
  author :: user

section \<open>Array primitives of the source language\<close>

text \<open>\<^verbatim>\<open>Array.prototype.findIndex\<close>; the result \<^verbatim>\<open>-1\<close> is \<open>None\<close>.\<close>

fun findIndex :: "('a \<Rightarrow> bool) \<Rightarrow> 'a list \<Rightarrow> nat option" where
  "findIndex P [] = None"
| "findIndex P (x # xs) = (if P x then Some 0 else map_option Suc (findIndex P xs))"

text \<open>
  \<^verbatim>\<open>Array.prototype.indexOf\<close>. The source compares object references; nodes are values
  here, so the first equal element is taken. The source only calls it on the element that
  \<^verbatim>\<open>find\<close> just returned, where both readings give the index of that element.
\<close>

definition indexOf :: "'a \<Rightarrow> 'a list \<Rightarrow> nat option" where
  "indexOf x xs = findIndex (\<lambda>y. y = x) xs"

text \<open>\<^verbatim>\<open>xs[i]\<close> for a number \<open>i\<close>: \<^verbatim>\<open>undefined\<close> (\<open>None\<close>) outside the array.\<close>

definition at_index :: "'a list \<Rightarrow> int \<Rightarrow> 'a option" where
  "at_index xs i = (if 0 \<le> i \<and> i < int (length xs) then Some (xs ! nat i) else None)"

section \<open>The merge function\<close>

text \<open>
  The \<^verbatim>\<open>while\<close> loop of \<^verbatim>\<open>applyOperation\<close> (second component of
  \<^verbatim>\<open>src/unnamed/part_001\<close>, lines 671-675): the insertion index moves forward while it
  is inside the array and the node there has the same \<^verbatim>\<open>previousId\<close> as the new node
  and a strictly smaller timestamp.
\<close>

function advance :: "RGANode list \<Rightarrow> RGANode \<Rightarrow> nat \<Rightarrow> nat" where
  "advance nodes newNode insertIndex =
     (if insertIndex < length nodes
         \<and> previousId (nodes ! insertIndex) = previousId newNode
         \<and> timestamp (nodes ! insertIndex) < timestamp newNode
      then advance nodes newNode (insertIndex + 1)
      else insertIndex)"
  by pat_completeness auto
termination
  by (relation "measure (\<lambda>(nodes, newNode, insertIndex). length nodes - insertIndex)") auto

declare advance.simps [simp del]

text \<open>
  \<^verbatim>\<open>applyOperation\<close> of the second component of \<^verbatim>\<open>src/unnamed/part_001\<close>
  (lines 651-682): the duplicate check comes first, then the predecessor is looked up,
  then the index is advanced past the earlier siblings and the node is spliced in.
\<close>

definition applyOperation :: "RGANode list \<Rightarrow> RGANode \<Rightarrow> RGANode list" where
  "applyOperation nodes newNode =
     (case findIndex (\<lambda>n. id_node n = id_node newNode) nodes of
        Some existingIndex \<Rightarrow>
          if timestamp (nodes ! existingIndex) \<ge> timestamp newNode then nodes
          else nodes[existingIndex := newNode]
      | None \<Rightarrow>
          (case find (\<lambda>n. Some (id_node n) = previousId newNode) nodes of
             None \<Rightarrow> nodes
           | Some insertAfterNode \<Rightarrow>
               (let insertIndex = advance nodes newNode
                      ((case indexOf insertAfterNode nodes of None \<Rightarrow> 0 | Some i \<Rightarrow> i + 1))
                in take insertIndex nodes @ [newNode] @ drop insertIndex nodes)))"

text \<open>
  \<^verbatim>\<open>applyOperation\<close> of the third component of \<^verbatim>\<open>src/unnamed/part_001\<close>
  (lines 1517-1548), transcribed on its own; its text is that of lines 651-682.
\<close>

definition applyOperation_third :: "RGANode list \<Rightarrow> RGANode \<Rightarrow> RGANode list" where
  "applyOperation_third nodes newNode =
     (case findIndex (\<lambda>n. id_node n = id_node newNode) nodes of
        Some existingIndex \<Rightarrow>
          if timestamp (nodes ! existingIndex) \<ge> timestamp newNode then nodes
          else nodes[existingIndex := newNode]
      | None \<Rightarrow>
          (case find (\<lambda>n. Some (id_node n) = previousId newNode) nodes of
             None \<Rightarrow> nodes
           | Some insertAfterNode \<Rightarrow>
               (let insertIndex = advance nodes newNode
                      ((case indexOf insertAfterNode nodes of None \<Rightarrow> 0 | Some i \<Rightarrow> i + 1))
                in take insertIndex nodes @ [newNode] @ drop insertIndex nodes)))"

text \<open>
  \<^verbatim>\<open>applyOperation\<close> of \<^verbatim>\<open>src/index.tsx\<close> (lines 51-76): the predecessor is looked up
  first and the function returns when it is missing; then the duplicate check; then the
  node is spliced in right after the predecessor. There is no loop over siblings.
\<close>

definition applyOperation_index :: "RGANode list \<Rightarrow> RGANode \<Rightarrow> RGANode list" where
  "applyOperation_index nodes newNode =
     (case find (\<lambda>n. Some (id_node n) = previousId newNode) nodes of
        None \<Rightarrow> nodes
      | Some insertAfterNode \<Rightarrow>
          (let insertIndex = (case indexOf insertAfterNode nodes of None \<Rightarrow> 0 | Some i \<Rightarrow> i + 1)
           in case findIndex (\<lambda>n. id_node n = id_node newNode) nodes of
                Some existingIndex \<Rightarrow>
                  if timestamp (nodes ! existingIndex) \<ge> timestamp newNode then nodes
                  else nodes[existingIndex := newNode]
              | None \<Rightarrow> take insertIndex nodes @ [newNode] @ drop insertIndex nodes))"

text \<open>
  \<^verbatim>\<open>applyOperation\<close> of the first component of \<^verbatim>\<open>src/unnamed/part_001\<close>
  (lines 47-70): \<^verbatim>\<open>findIndex(...) + 1\<close> is the insertion index, and the value \<open>0\<close>
  (predecessor missing) returns the list as it is.
\<close>

definition applyOperation_first :: "RGANode list \<Rightarrow> RGANode \<Rightarrow> RGANode list" where
  "applyOperation_first nodes newNode =
     (let insertIndex =
            (case findIndex (\<lambda>n. Some (id_node n) = previousId newNode) nodes of
               None \<Rightarrow> 0 | Some i \<Rightarrow> i + 1)
      in if insertIndex = 0 then nodes
         else case findIndex (\<lambda>n. id_node n = id_node newNode) nodes of
                Some existingIndex \<Rightarrow>
                  if timestamp (nodes ! existingIndex) \<ge> timestamp newNode then nodes
                  else nodes[existingIndex := newNode]
              | None \<Rightarrow> take insertIndex nodes @ [newNode] @ drop insertIndex nodes)"

section \<open>Visible nodes and causal positioning\<close>

text \<open>\<^verbatim>\<open>visibleNodes\<close>: the nodes that are not tombstoned. The root is among them.\<close>

definition visibleNodes :: "RGANode list \<Rightarrow> RGANode list" where
  "visibleNodes nodes = filter (\<lambda>n. \<not> removed n) nodes"

text \<open>
  \<^verbatim>\<open>nonRootNodes\<close> of \<^verbatim>\<open>handleEditorClick\<close> (\<^verbatim>\<open>src/index.tsx\<close>, lines 181-183): the
  visible nodes without the root, which is the text a replica shows.
\<close>

definition nonRootNodes :: "RGANode list \<Rightarrow> RGANode list" where
  "nonRootNodes nodes = filter (\<lambda>node. id_node node \<noteq> ''root'') (visibleNodes nodes)"

text \<open>
  \<^verbatim>\<open>targetNode?.id || 'root'\<close>: a missing node and an empty id both give \<^verbatim>\<open>'root'\<close>.
\<close>

definition id_or_root :: "RGANode option \<Rightarrow> string" where
  "id_or_root t = (case t of None \<Rightarrow> ''root''
                   | Some targetNode \<Rightarrow> if id_node targetNode = [] then ''root'' else id_node targetNode)"

text \<open>
  \<^verbatim>\<open>findInsertPosition\<close> of \<^verbatim>\<open>src/index.tsx\<close> (lines 43-49); the second and third
  components of \<^verbatim>\<open>src/unnamed/part_001\<close> (lines 643-649 and 1509-1515) have the same text.
  The position is an integer here; the source's \<^verbatim>\<open>number\<close> is only ever a cursor position.
\<close>

definition findInsertPosition :: "int \<Rightarrow> RGANode list \<Rightarrow> string" where
  "findInsertPosition position nodes =
     (let vnodes = visibleNodes nodes
      in if position = 0 then ''root'' else id_or_root (at_index vnodes position))"

text \<open>
  \<^verbatim>\<open>findInsertPosition\<close> of the first component of \<^verbatim>\<open>src/unnamed/part_001\<close>
  (lines 42-45): \<^verbatim>\<open>position > 0 ? vnodes[position - 1]?.id || 'root' : 'root'\<close>.
\<close>

definition findInsertPosition_first :: "int \<Rightarrow> RGANode list \<Rightarrow> string" where
  "findInsertPosition_first position nodes =
     (let vnodes = visibleNodes nodes
      in if position > 0 then id_or_root (at_index vnodes (position - 1)) else ''root'')"

section \<open>The component state and its handlers\<close>

text \<open>
  The state hooks of \<^verbatim>\<open>RGAEditorDemo\<close> that the handlers read and write. \<open>timers\<close>
  holds the callbacks scheduled with \<^verbatim>\<open>setTimeout\<close> and not yet run, oldest first: each
  is the replica whose list it will update and the node it will apply. All timers use the
  same \<^verbatim>\<open>networkDelay\<close>, so they run in the order they were scheduled; the delay itself
  is not modelled.
\<close>

record editor =
  user1Nodes :: "RGANode list"
  user2Nodes :: "RGANode list"
  cursorPos :: "user \<Rightarrow> int"
  isOffline :: bool
  timers :: "(user \<times> RGANode) list"

text \<open>\<^verbatim>\<open>author === 'user1' ? user1Nodes : user2Nodes\<close> and the matching setter.\<close>

fun nodesOf :: "user \<Rightarrow> editor \<Rightarrow> RGANode list" where
  "nodesOf User1 st = user1Nodes st"
| "nodesOf User2 st = user2Nodes st"

fun setNodes :: "user \<Rightarrow> (RGANode list \<Rightarrow> RGANode list) \<Rightarrow> editor \<Rightarrow> editor" where
  "setNodes User1 f st = st\<lparr>user1Nodes := f (user1Nodes st)\<rparr>"
| "setNodes User2 f st = st\<lparr>user2Nodes := f (user2Nodes st)\<rparr>"

fun remoteOf :: "user \<Rightarrow> user" where
  "remoteOf User1 = User2"
| "remoteOf User2 = User1"

text \<open>
  \<^verbatim>\<open>updateNodes\<close> (\<^verbatim>\<open>src/index.tsx\<close>, lines 78-93). The handlers close over the
  \<^verbatim>\<open>applyOperation\<close> of their own component, which is the parameter \<open>apply\<close> here.
\<close>

definition updateNodes ::
  "(RGANode list \<Rightarrow> RGANode \<Rightarrow> RGANode list) \<Rightarrow> user \<Rightarrow> RGANode \<Rightarrow> bool \<Rightarrow> editor \<Rightarrow> editor" where
  "updateNodes apply a node immediateUpdate st =
     (let st1 = (if immediateUpdate then setNodes a (\<lambda>nodes. apply nodes node) st else st)
      in if \<not> isOffline st1 then st1\<lparr>timers := timers st1 @ [(remoteOf a, node)]\<rparr> else st1)"

text \<open>
  \<^verbatim>\<open>handleInsert\<close> (\<^verbatim>\<open>src/index.tsx\<close>, lines 95-119). \<open>newId\<close> stands for
  \<^verbatim>\<open>Math.random().toString(36).substr(2, 9)\<close> and \<open>now\<close> for \<^verbatim>\<open>Date.now()\<close>.
\<close>

definition handleInsert ::
  "(RGANode list \<Rightarrow> RGANode \<Rightarrow> RGANode list) \<Rightarrow> string \<Rightarrow> int \<Rightarrow> string \<Rightarrow> int \<Rightarrow> user \<Rightarrow> bool
     \<Rightarrow> editor \<Rightarrow> editor" where
  "handleInsert apply newId now v position a immediateUpdate st =
     (let sourceNodes = nodesOf a st;
          prevId = findInsertPosition position sourceNodes;
          newNode = \<lparr>id_node = newId, value_node = v, timestamp = now,
                     previousId = Some prevId, removed = False, author = a\<rparr>;
          st1 = updateNodes apply a newNode immediateUpdate st
      in st1\<lparr>cursorPos := (cursorPos st1)(a := cursorPos st1 a + 1)\<rparr>)"

text \<open>\<^verbatim>\<open>handleDelete\<close> (\<^verbatim>\<open>src/index.tsx\<close>, lines 121-145).\<close>

definition handleDelete ::
  "(RGANode list \<Rightarrow> RGANode \<Rightarrow> RGANode list) \<Rightarrow> int \<Rightarrow> int \<Rightarrow> user \<Rightarrow> bool \<Rightarrow> editor \<Rightarrow> editor" where
  "handleDelete apply now position a immediateUpdate st =
     (let sourceNodes = nodesOf a st;
          vnodes = visibleNodes sourceNodes
      in case at_index vnodes (position + 1) of
           None \<Rightarrow> st
         | Some targetNode \<Rightarrow>
             (let updatedNode = targetNode\<lparr>removed := True, timestamp := now\<rparr>;
                  st1 = updateNodes apply a updatedNode immediateUpdate st
              in st1\<lparr>cursorPos := (cursorPos st1)(a := max 0 (cursorPos st1 a - 1))\<rparr>))"

text \<open>
  One run of the effect that watches \<^verbatim>\<open>isOffline\<close> (\<^verbatim>\<open>src/unnamed/part_001\<close>,
  lines 943-957; \<^verbatim>\<open>src/index.tsx\<close>, lines 280-292): when the component is online every
  node of each replica is handed to \<^verbatim>\<open>updateNodes\<close> with \<^verbatim>\<open>immediateUpdate = false\<close>,
  which schedules its delivery to the other replica.
\<close>

definition syncEffect :: "(RGANode list \<Rightarrow> RGANode \<Rightarrow> RGANode list) \<Rightarrow> editor \<Rightarrow> editor" where
  "syncEffect apply st =
     (if \<not> isOffline st
      then foldl (\<lambda>s node. updateNodes apply User2 node False s)
             (foldl (\<lambda>s node. updateNodes apply User1 node False s) st (user1Nodes st))
             (user2Nodes st)
      else st)"

text \<open>Running the scheduled callbacks, oldest first: each applies its node to its replica.\<close>

fun runTimers ::
  "(RGANode list \<Rightarrow> RGANode \<Rightarrow> RGANode list) \<Rightarrow> (user \<times> RGANode) list \<Rightarrow> editor \<Rightarrow> editor" where
  "runTimers apply [] st = st"
| "runTimers apply ((u, node) # ts) st = runTimers apply ts (setNodes u (\<lambda>nodes. apply nodes node) st)"

definition flushTimers :: "(RGANode list \<Rightarrow> RGANode \<Rightarrow> RGANode list) \<Rightarrow> editor \<Rightarrow> editor" where
  "flushTimers apply st = runTimers apply (timers st) (st\<lparr>timers := []\<rparr>)"

text \<open>
  The \<^verbatim>\<open>Load Example\<close> button (\<^verbatim>\<open>src/unnamed/part_001\<close>, lines 1133-1138) and the
  switch back to online, after which the effect above runs.
\<close>

definition loadExample :: "RGANode list \<Rightarrow> RGANode list \<Rightarrow> int \<Rightarrow> int \<Rightarrow> editor \<Rightarrow> editor" where
  "loadExample u1 u2 c1 c2 st =
     st\<lparr>isOffline := True, user1Nodes := u1, user2Nodes := u2,
        cursorPos := (\<lambda>a. case a of User1 \<Rightarrow> c1 | User2 \<Rightarrow> c2)\<rparr>"

definition goOnline :: "(RGANode list \<Rightarrow> RGANode \<Rightarrow> RGANode list) \<Rightarrow> editor \<Rightarrow> editor" where
  "goOnline apply st = syncEffect apply (st\<lparr>isOffline := False\<rparr>)"

section \<open>Concrete nodes and the second example\<close>

text \<open>The root node that every component creates on start-up and on reset.\<close>

definition rootNode :: RGANode where
  "rootNode = \<lparr>id_node = ''root'', value_node = '''', timestamp = 0, previousId = None,
                removed = False, author = User1\<rparr>"

definition mkNode :: "string \<Rightarrow> string \<Rightarrow> int \<Rightarrow> string \<Rightarrow> bool \<Rightarrow> user \<Rightarrow> RGANode" where
  "mkNode i v t p r a = \<lparr>id_node = i, value_node = v, timestamp = t, previousId = Some p,
                         removed = r, author = a\<rparr>"

definition initialEditor :: editor where
  "initialEditor = \<lparr>user1Nodes = [rootNode], user2Nodes = [rootNode], cursorPos = (\<lambda>a. 0),
                     isOffline = False, timers = []\<rparr>"

text \<open>
  The example \<^verbatim>\<open>Concurrent Delete and Insert\<close> (\<^verbatim>\<open>src/unnamed/part_001\<close>,
  lines 393-506), node for node.
\<close>

definition example2_user1Nodes :: "RGANode list" where
  "example2_user1Nodes =
     [rootNode,
      mkNode ''h1'' ''h'' 1006 ''root'' True User1,
      mkNode ''e1'' ''e'' 1007 ''h1'' True User1,
      mkNode ''l1'' ''l'' 1008 ''e1'' True User1,
      mkNode ''l2'' ''l'' 1009 ''l1'' True User1,
      mkNode ''o1'' ''o'' 1010 ''l2'' True User1]"

definition example2_user2Nodes :: "RGANode list" where
  "example2_user2Nodes =
     [rootNode,
      mkNode ''h1'' ''h'' 1000 ''root'' False User1,
      mkNode ''e1'' ''e'' 1001 ''h1'' False User1,
      mkNode ''l1'' ''l'' 1002 ''e1'' False User1,
      mkNode ''x1'' ''X'' 1005 ''l1'' False User2,
      mkNode ''l2'' ''l'' 1003 ''l1'' False User1,
      mkNode ''o1'' ''o'' 1004 ''l2'' False User1]"

text \<open>The state after the example is loaded, the replicas go online and every timer has run.\<close>

definition example2_synced :: editor where
  "example2_synced =
     flushTimers applyOperation
       (goOnline applyOperation
          (loadExample example2_user1Nodes example2_user2Nodes 1 7 initialEditor))"

section \<open>Notions used to state the properties\<close>

text \<open>The condition of the sibling loop, as a predicate on the node under the index.\<close>

definition earlier_sibling :: "RGANode \<Rightarrow> RGANode \<Rightarrow> bool" where
  "earlier_sibling newNode n \<longleftrightarrow>
     previousId n = previousId newNode \<and> timestamp n < timestamp newNode"

text \<open>The splice \<^verbatim>\<open>[...nodes.slice(0, k), x, ...nodes.slice(k)]\<close>.\<close>

definition insert_at :: "nat \<Rightarrow> 'a \<Rightarrow> 'a list \<Rightarrow> 'a list" where
  "insert_at k x xs = take k xs @ [x] @ drop k xs"

text \<open>
  A well-formed replica: the root comes first and is not tombstoned, and no other node
  has the root's id or an empty id.
\<close>

definition root_first :: "RGANode list \<Rightarrow> bool" where
  "root_first nodes \<longleftrightarrow>
     (case nodes of [] \<Rightarrow> False
      | r # rest \<Rightarrow> id_node r = ''root'' \<and> \<not> removed r
                    \<and> list_all (\<lambda>n. id_node n \<noteq> ''root'' \<and> id_node n \<noteq> []) rest)"

section \<open>Facts about the array primitives\<close>

lemma findIndex_None_iff: "findIndex P xs = None \<longleftrightarrow> (\<forall>x \<in> set xs. \<not> P x)"
  by (induction xs) auto

lemma findIndex_Some_D:
  "findIndex P xs = Some i \<Longrightarrow> i < length xs \<and> P (xs ! i) \<and> (\<forall>j < i. \<not> P (xs ! j))"
proof (induction xs arbitrary: i)
  case Nil
  then show ?case by simp
next
  case (Cons x xs)
  show ?case
  proof (cases "P x")
    case True
    with Cons.prems show ?thesis by simp
  next
    case False
    with Cons.prems obtain k where k: "findIndex P xs = Some k" "i = Suc k"
      by auto
    from Cons.IH [OF k(1)] False k(2) show ?thesis
      by (auto simp: less_Suc_eq_0_disj)
  qed
qed

lemma findIndex_first:
  "i < length xs \<Longrightarrow> P (xs ! i) \<Longrightarrow> \<forall>j < i. \<not> P (xs ! j) \<Longrightarrow> findIndex P xs = Some i"
proof (induction xs arbitrary: i)
  case Nil
  then show ?case by simp
next
  case (Cons x xs)
  show ?case
  proof (cases i)
    case 0
    with Cons.prems show ?thesis by simp
  next
    case (Suc k)
    with Cons.prems have "\<not> P x" by auto
    moreover have "findIndex P xs = Some k"
      using Cons.prems Suc by (intro Cons.IH) auto
    ultimately show ?thesis using Suc by simp
  qed
qed

lemma find_findIndex:
  "find P xs = (case findIndex P xs of None \<Rightarrow> None | Some i \<Rightarrow> Some (xs ! i))"
  by (induction xs) (auto split: option.splits)

lemma indexOf_found:
  assumes "findIndex P xs = Some i"
  shows "indexOf (xs ! i) xs = Some i"
proof -
  from findIndex_Some_D [OF assms]
  have i: "i < length xs" "P (xs ! i)" "\<forall>j < i. \<not> P (xs ! j)" by auto
  have "\<forall>j < i. xs ! j \<noteq> xs ! i"
    using i(2,3) by metis
  then show ?thesis
    unfolding indexOf_def using i(1) by (intro findIndex_first) auto
qed

text \<open>The starting index of the loop, once the lookups are resolved to positions.\<close>

lemma applyOperation_fresh:
  assumes "findIndex (\<lambda>n. id_node n = id_node newNode) nodes = None"
    and "findIndex (\<lambda>n. Some (id_node n) = previousId newNode) nodes = Some p"
  shows "applyOperation nodes newNode =
           take (advance nodes newNode (p + 1)) nodes @ [newNode]
             @ drop (advance nodes newNode (p + 1)) nodes"
  using assms indexOf_found [OF assms(2)]
  by (simp add: applyOperation_def find_findIndex Let_def)

lemma applyOperation_unresolved:
  assumes "findIndex (\<lambda>n. id_node n = id_node newNode) nodes = None"
    and "findIndex (\<lambda>n. Some (id_node n) = previousId newNode) nodes = None"
  shows "applyOperation nodes newNode = nodes"
  using assms by (simp add: applyOperation_def find_findIndex)

lemma applyOperation_existing:
  assumes "findIndex (\<lambda>n. id_node n = id_node newNode) nodes = Some e"
  shows "applyOperation nodes newNode =
           (if timestamp (nodes ! e) \<ge> timestamp newNode then nodes else nodes[e := newNode])"
  using assms by (simp add: applyOperation_def)

lemma findIndex_update_same:
  assumes "findIndex P xs = Some i" "P y"
  shows "findIndex P (xs[i := y]) = Some i"
proof -
  from findIndex_Some_D [OF assms(1)]
  have i: "i < length xs" "\<forall>j < i. \<not> P (xs ! j)" by auto
  show ?thesis
    using i assms(2) by (intro findIndex_first) auto
qed

lemma findIndex_insert:
  assumes "findIndex P xs = None" "P y"
  shows "findIndex P (take k xs @ [y] @ drop k xs) = Some (min k (length xs))"
proof -
  have n: "\<forall>x \<in> set xs. \<not> P x" using assms(1) by (simp add: findIndex_None_iff)
  have "\<forall>j < min k (length xs). \<not> P ((take k xs @ [y] @ drop k xs) ! j)"
    using n by (auto simp: nth_append)
  then show ?thesis
    using assms(2) by (intro findIndex_first) (auto simp: nth_append)
qed

lemma advance_le: "k \<le> advance nodes newNode k"
  by (induction nodes newNode k rule: advance.induct) (subst advance.simps, auto)

lemma advance_bound: "k \<le> length nodes \<Longrightarrow> advance nodes newNode k \<le> length nodes"
  by (induction nodes newNode k rule: advance.induct) (subst advance.simps, auto)

section \<open>Facts about the sibling loop and the splice\<close>

lemma length_insert_at [simp]: "length (insert_at k x xs) = Suc (length xs)"
  by (simp add: insert_at_def)

lemma nth_insert_at:
  "k \<le> length xs \<Longrightarrow> i \<le> length xs \<Longrightarrow>
     insert_at k x xs ! i = (if i < k then xs ! i else if i = k then x else xs ! (i - 1))"
proof -
  assume k: "k \<le> length xs" and i: "i \<le> length xs"
  show ?thesis
  proof (cases "i \<le> k")
    case True
    then show ?thesis using k by (auto simp: insert_at_def nth_append)
  next
    case False
    then obtain d where d: "i = Suc (k + d)"
      by (metis add_Suc_right less_imp_Suc_add not_le_imp_less)
    then show ?thesis using k i by (simp add: insert_at_def nth_append)
  qed
qed






lemma applyOperation_fresh_insert_at:
  assumes "findIndex (\<lambda>n. id_node n = id_node newNode) nodes = None"
    and "findIndex (\<lambda>n. Some (id_node n) = previousId newNode) nodes = Some p"
  shows "applyOperation nodes newNode = insert_at (advance nodes newNode (p + 1)) newNode nodes"
  using applyOperation_fresh [OF assms] by (simp add: insert_at_def)

lemma findIndex_insert_at_later:
  assumes "findIndex P xs = Some p" "p < k" "k \<le> length xs"
  shows "findIndex P (insert_at k x xs) = Some p"
proof -
  from findIndex_Some_D [OF assms(1)]
  have p: "p < length xs" "P (xs ! p)" "\<forall>j < p. \<not> P (xs ! j)" by auto
  show ?thesis
    using p assms(2,3) by (intro findIndex_first) (auto simp: nth_insert_at)
qed




section \<open>Facts about the other copies of the merge and about the handlers\<close>

lemma applyOperation_index_unresolved:
  assumes "findIndex (\<lambda>n. Some (id_node n) = previousId newNode) nodes = None"
  shows "applyOperation_index nodes newNode = nodes"
  using assms by (simp add: applyOperation_index_def find_findIndex)

lemma applyOperation_index_existing:
  assumes "findIndex (\<lambda>n. Some (id_node n) = previousId newNode) nodes = Some p"
    and "findIndex (\<lambda>n. id_node n = id_node newNode) nodes = Some e"
  shows "applyOperation_index nodes newNode =
           (if timestamp (nodes ! e) \<ge> timestamp newNode then nodes else nodes[e := newNode])"
  using assms by (simp add: applyOperation_index_def find_findIndex Let_def)

lemma applyOperation_index_fresh:
  assumes "findIndex (\<lambda>n. Some (id_node n) = previousId newNode) nodes = Some p"
    and "findIndex (\<lambda>n. id_node n = id_node newNode) nodes = None"
  shows "applyOperation_index nodes newNode = insert_at (p + 1) newNode nodes"
  using assms indexOf_found [OF assms(1)]
  by (simp add: applyOperation_index_def find_findIndex Let_def insert_at_def)

lemma applyOperation_first_eq_index:
  "applyOperation_first nodes newNode = applyOperation_index nodes newNode"
proof (cases "findIndex (\<lambda>n. Some (id_node n) = previousId newNode) nodes")
  case None
  then show ?thesis
    by (simp add: applyOperation_first_def applyOperation_index_def find_findIndex)
next
  case (Some p)
  then show ?thesis
    using indexOf_found [OF Some]
    by (simp add: applyOperation_first_def applyOperation_index_def find_findIndex Let_def)
qed

lemma map_id_node_update:
  assumes "e < length nodes" "id_node (nodes ! e) = id_node n"
  shows "map id_node (nodes[e := n]) = map id_node nodes"
  using assms by (simp add: map_update list_update_same_conv)

lemma existing_id_shape:
  assumes "apply = applyOperation \<or> apply = applyOperation_index"
    and "findIndex (\<lambda>n. id_node n = id_node d) nodes = Some e"
  shows "apply nodes d = nodes \<or> apply nodes d = nodes[e := d]"
    and "timestamp (nodes ! e) < timestamp d
           \<Longrightarrow> \<exists>n \<in> set nodes. Some (id_node n) = previousId d
           \<Longrightarrow> apply nodes d = nodes[e := d]"
proof -
  have 1: "applyOperation nodes d
             = (if timestamp (nodes ! e) \<ge> timestamp d then nodes else nodes[e := d])"
    using applyOperation_existing [OF assms(2)] .
  have 2: "applyOperation_index nodes d = nodes \<or> applyOperation_index nodes d = nodes[e := d]"
  proof (cases "findIndex (\<lambda>n. Some (id_node n) = previousId d) nodes")
    case None
    then show ?thesis by (simp add: applyOperation_index_unresolved)
  next
    case (Some p)
    from applyOperation_index_existing [OF Some assms(2)] show ?thesis by auto
  qed
  show "apply nodes d = nodes \<or> apply nodes d = nodes[e := d]"
    using 1 2 assms(1) by auto
  show "apply nodes d = nodes[e := d]"
    if t: "timestamp (nodes ! e) < timestamp d"
      and q: "\<exists>n \<in> set nodes. Some (id_node n) = previousId d"
  proof -
    from q obtain p where p: "findIndex (\<lambda>n. Some (id_node n) = previousId d) nodes = Some p"
      by (cases "findIndex (\<lambda>n. Some (id_node n) = previousId d) nodes")
         (auto simp: findIndex_None_iff)
    from applyOperation_index_existing [OF p assms(2)] 1 t assms(1) show ?thesis by auto
  qed
qed

lemma applyOperation_keeps_ids:
  "set (map id_node s) \<subseteq> set (map id_node (applyOperation s op))
   \<and> length s \<le> length (applyOperation s op)"
proof (cases "findIndex (\<lambda>n. id_node n = id_node op) s")
  case (Some e)
  from findIndex_Some_D [OF Some] have e: "e < length s" "id_node (s ! e) = id_node op"
    by auto
  from existing_id_shape(1) [OF _ Some, of applyOperation]
  have "applyOperation s op = s \<or> applyOperation s op = s[e := op]" by simp
  then show ?thesis
    using map_id_node_update [OF e] by (metis length_list_update order_refl)
next
  case None
  show ?thesis
  proof (cases "findIndex (\<lambda>n. Some (id_node n) = previousId op) s")
    case N2: None
    then show ?thesis using None by (simp add: applyOperation_unresolved)
  next
    case (Some p)
    have "set s \<subseteq> set (insert_at k op s)" for k
      by (metis append_take_drop_id insert_at_def set_append set_subset_Cons
                sup.mono append_Cons append_Nil subset_refl)
    then show ?thesis
      using applyOperation_fresh_insert_at [OF None Some] by auto
  qed
qed

lemma nodesOf_cursorPos_update [simp]: "nodesOf a (st\<lparr>cursorPos := c\<rparr>) = nodesOf a st"
  by (cases a) simp_all

lemma nodesOf_updateNodes:
  "nodesOf a (updateNodes apply a node imm st)
     = (if imm then apply (nodesOf a st) node else nodesOf a st)"
  by (cases a) (simp_all add: updateNodes_def Let_def)

lemma nodesOf_remote_updateNodes:
  "nodesOf (remoteOf a) (updateNodes apply a node imm st) = nodesOf (remoteOf a) st"
  by (cases a) (simp_all add: updateNodes_def Let_def)

lemma timers_updateNodes:
  "timers (updateNodes apply a node imm st)
     = (if isOffline st then timers st else timers st @ [(remoteOf a, node)])"
  by (cases a) (simp_all add: updateNodes_def Let_def)

lemma cursorPos_updateNodes: "cursorPos (updateNodes apply a node imm st) = cursorPos st"
  by (cases a) (simp_all add: updateNodes_def Let_def)

lemma at_index_Some_D: "at_index xs i = Some x \<Longrightarrow> x \<in> set xs"
  by (auto simp: at_index_def split: if_splits)

lemma applyOperation_index_idempotent:
  "applyOperation_index (applyOperation_index s op) op = applyOperation_index s op"
proof (cases "findIndex (\<lambda>n. Some (id_node n) = previousId op) s")
  case None
  then show ?thesis by (simp add: applyOperation_index_unresolved)
next
  case (Some p)
  note ps = Some
  have pl: "p < length s" using findIndex_Some_D [OF ps] by simp
  show ?thesis
  proof (cases "findIndex (\<lambda>n. id_node n = id_node op) s")
    case (Some e)
    show ?thesis
    proof (cases "timestamp (s ! e) \<ge> timestamp op")
      case True
      then show ?thesis using ps Some by (simp add: applyOperation_index_existing)
    next
      case False
      have r: "applyOperation_index s op = s[e := op]"
        using False applyOperation_index_existing [OF ps Some] by simp
      have e': "findIndex (\<lambda>n. id_node n = id_node op) (s[e := op]) = Some e"
        using Some by (rule findIndex_update_same) simp
      have el: "e < length s" using findIndex_Some_D [OF Some] by simp
      have "applyOperation_index (s[e := op]) op = s[e := op]"
      proof (cases "findIndex (\<lambda>n. Some (id_node n) = previousId op) (s[e := op])")
        case None
        then show ?thesis by (simp add: applyOperation_index_unresolved)
      next
        case (Some q)
        from applyOperation_index_existing [OF Some e'] el show ?thesis by simp
      qed
      then show ?thesis by (simp add: r)
    qed
  next
    case None
    have r: "applyOperation_index s op = insert_at (p + 1) op s"
      using ps None by (rule applyOperation_index_fresh)
    have "findIndex (\<lambda>n. id_node n = id_node op) (insert_at (p + 1) op s) = Some (p + 1)"
      using findIndex_insert [OF None, of op "p + 1"] pl by (simp add: insert_at_def min_absorb1)
    moreover have "insert_at (p + 1) op s ! (p + 1) = op"
      using pl by (simp add: nth_insert_at)
    moreover have "findIndex (\<lambda>n. Some (id_node n) = previousId op) (insert_at (p + 1) op s) = Some p"
      using ps pl by (intro findIndex_insert_at_later) auto
    ultimately have "applyOperation_index (insert_at (p + 1) op s) op = insert_at (p + 1) op s"
      by (simp add: applyOperation_index_existing)
    then show ?thesis by (simp add: r)
  qed
qed

lemma applyOperation_index_keeps_ids:
  "set (map id_node s) \<subseteq> set (map id_node (applyOperation_index s op))
   \<and> length s \<le> length (applyOperation_index s op)"
proof (cases "findIndex (\<lambda>n. Some (id_node n) = previousId op) s")
  case None
  then show ?thesis by (simp add: applyOperation_index_unresolved)
next
  case (Some p)
  show ?thesis
  proof (cases "findIndex (\<lambda>n. id_node n = id_node op) s")
    case None
    have "set s \<subseteq> set (insert_at k op s)" for k
      by (metis append_take_drop_id insert_at_def set_append set_subset_Cons
                sup.mono append_Cons append_Nil subset_refl)
    then show ?thesis
      using applyOperation_index_fresh [OF Some None] by auto
  next
    case E: (Some e)
    from findIndex_Some_D [OF E] have e: "e < length s" "id_node (s ! e) = id_node op"
      by auto
    from existing_id_shape(1) [OF _ E, of applyOperation_index]
    have "applyOperation_index s op = s \<or> applyOperation_index s op = s[e := op]" by simp
    then show ?thesis
      using map_id_node_update [OF e] by (metis length_list_update order_refl)
  qed
qed

lemma applyOperation_index_existing_resolved:
  assumes "\<exists>n \<in> set s. id_node n = id_node incoming"
    and "\<exists>m \<in> set s. Some (id_node m) = previousId incoming"
  shows "applyOperation_index s incoming = applyOperation s incoming"
proof -
  from assms(1) obtain e where e: "findIndex (\<lambda>n. id_node n = id_node incoming) s = Some e"
    by (cases "findIndex (\<lambda>n. id_node n = id_node incoming) s")
       (auto simp: findIndex_None_iff)
  from assms(2) obtain p where p: "findIndex (\<lambda>n. Some (id_node n) = previousId incoming) s = Some p"
    by (cases "findIndex (\<lambda>n. Some (id_node n) = previousId incoming) s")
       (auto simp: findIndex_None_iff)
  show ?thesis
    by (simp add: applyOperation_index_existing [OF p e] applyOperation_existing [OF e])
qed



lemma applyOperation_index_on_existing:
  assumes e: "findIndex (\<lambda>n. id_node n = id_node incoming) s = Some e"
  shows "timestamp (s ! e) \<ge> timestamp incoming \<Longrightarrow> applyOperation_index s incoming = s"
    and "timestamp (s ! e) < timestamp incoming
           \<Longrightarrow> \<exists>m \<in> set s. Some (id_node m) = previousId incoming
           \<Longrightarrow> applyOperation_index s incoming = s[e := incoming]"
    and "\<forall>m \<in> set s. Some (id_node m) \<noteq> previousId incoming
           \<Longrightarrow> applyOperation_index s incoming = s"
proof -
  show "applyOperation_index s incoming = s"
    if "\<forall>m \<in> set s. Some (id_node m) \<noteq> previousId incoming"
    using that by (intro applyOperation_index_unresolved) (simp add: findIndex_None_iff)
  show "applyOperation_index s incoming = s" if t: "timestamp (s ! e) \<ge> timestamp incoming"
  proof (cases "findIndex (\<lambda>n. Some (id_node n) = previousId incoming) s")
    case None
    then show ?thesis by (rule applyOperation_index_unresolved)
  next
    case (Some p)
    from applyOperation_index_existing [OF Some e] t show ?thesis by simp
  qed
  show "applyOperation_index s incoming = s[e := incoming]"
    if t: "timestamp (s ! e) < timestamp incoming"
      and q: "\<exists>m \<in> set s. Some (id_node m) = previousId incoming"
  proof -
    from q obtain p where p: "findIndex (\<lambda>n. Some (id_node n) = previousId incoming) s = Some p"
      by (cases "findIndex (\<lambda>n. Some (id_node n) = previousId incoming) s")
         (auto simp: findIndex_None_iff)
    from applyOperation_index_existing [OF p e] t show ?thesis by simp
  qed
qed

lemma nonRootNodes_filter:
  "nonRootNodes nodes = filter (\<lambda>n. \<not> removed n \<and> id_node n \<noteq> ''root'') nodes"
  by (simp add: nonRootNodes_def visibleNodes_def conj_commute)

lemma id_or_root_at_index:
  "id_or_root (at_index xs i)
     = (if i < 0 \<or> int (length xs) \<le> i then ''root''
        else if id_node (xs ! nat i) = [] then ''root'' else id_node (xs ! nat i))"
  by (simp add: id_or_root_def at_index_def)

section \<open>Facts about causal positioning\<close>

lemma root_first_visible:
  assumes "root_first nodes"
  shows "visibleNodes nodes = hd nodes # nonRootNodes nodes"
    and "\<forall>n \<in> set (nonRootNodes nodes). id_node n \<noteq> []"
proof -
  from assms obtain r rest where n: "nodes = r # rest"
    and r: "id_node r = ''root''" "\<not> removed r"
    and rest: "list_all (\<lambda>n. id_node n \<noteq> ''root'' \<and> id_node n \<noteq> []) rest"
    by (auto simp: root_first_def split: list.splits)
  have "filter (\<lambda>node. id_node node \<noteq> ''root'') (filter (\<lambda>n. \<not> removed n) rest)
          = filter (\<lambda>n. \<not> removed n) rest"
    using rest by (intro filter_True) (auto simp: list_all_iff)
  then show "visibleNodes nodes = hd nodes # nonRootNodes nodes"
    using n r by (simp add: visibleNodes_def nonRootNodes_def)
  show "\<forall>n \<in> set (nonRootNodes nodes). id_node n \<noteq> []"
    using n r rest by (auto simp: visibleNodes_def nonRootNodes_def list_all_iff)
qed

lemma id_or_root_at_index_Cons:
  assumes "\<forall>n \<in> set xs. id_node n \<noteq> []"
  shows "id_or_root (at_index (r # xs) i)
           = (if i = 0 then id_or_root (Some r)
              else if i < 0 \<or> int (length xs) < i then ''root''
              else id_node (xs ! nat (i - 1)))"
proof (cases "0 < i \<and> i \<le> int (length xs)")
  case True
  then have "nat i = Suc (nat (i - 1))" by arith
  then have "(r # xs) ! nat i = xs ! nat (i - 1)" by simp
  moreover have "nat (i - 1) < length xs" using True by arith
  then have "xs ! nat (i - 1) \<in> set xs" by (rule nth_mem)
  ultimately show ?thesis using True assms by (simp add: id_or_root_def at_index_def)
next
  case False
  then show ?thesis by (auto simp: id_or_root_def at_index_def)
qed

lemma in_set_insert_at: "x \<in> set (insert_at k x xs)"
  by (simp add: insert_at_def)

lemma findInsertPosition_out_of_range:
  assumes "position < 0 \<or> int (length (visibleNodes nodes)) \<le> position"
  shows "findInsertPosition position nodes = ''root''"
  using assms by (auto simp: findInsertPosition_def id_or_root_def at_index_def)

section \<open>Facts about the difference between the copies\<close>

lemma advance_stays_iff:
  "advance nodes n k = k \<longleftrightarrow> \<not> (k < length nodes \<and> earlier_sibling n (nodes ! k))"
proof (cases "k < length nodes \<and> earlier_sibling n (nodes ! k)")
  case True
  then have "advance nodes n k = advance nodes n (k + 1)"
    by (subst advance.simps) (simp add: earlier_sibling_def)
  moreover have "k + 1 \<le> advance nodes n (k + 1)" by (rule advance_le)
  ultimately show ?thesis using True by simp
next
  case False
  then have "advance nodes n k = k"
    by (subst advance.simps) (auto simp: earlier_sibling_def)
  then show ?thesis using False by simp
qed

lemma insert_at_differs:
  assumes "j < k" "k \<le> length xs" "xs ! j \<noteq> x"
  shows "insert_at j x xs \<noteq> insert_at k x xs"
proof
  assume "insert_at j x xs = insert_at k x xs"
  then have "insert_at j x xs ! j = insert_at k x xs ! j" by simp
  then show False using assms by (simp add: nth_insert_at)
qed

lemma applyOperation_index_eq_iff:
  "applyOperation_index nodes n = applyOperation nodes n \<longleftrightarrow>
     \<not> ((\<exists>e. findIndex (\<lambda>m. id_node m = id_node n) nodes = Some e
              \<and> findIndex (\<lambda>m. Some (id_node m) = previousId n) nodes = None
              \<and> timestamp (nodes ! e) < timestamp n)
        \<or> (\<exists>p. findIndex (\<lambda>m. id_node m = id_node n) nodes = None
              \<and> findIndex (\<lambda>m. Some (id_node m) = previousId n) nodes = Some p
              \<and> p + 1 < length nodes \<and> earlier_sibling n (nodes ! (p + 1))))"
proof (cases "findIndex (\<lambda>m. Some (id_node m) = previousId n) nodes")
  case None
  note pn = None
  show ?thesis
  proof (cases "findIndex (\<lambda>m. id_node m = id_node n) nodes")
    case None
    then show ?thesis
      using pn by (simp add: applyOperation_index_unresolved applyOperation_unresolved)
  next
    case (Some e)
    have el: "e < length nodes" using findIndex_Some_D [OF Some] by simp
    have "nodes[e := n] \<noteq> nodes" if "timestamp (nodes ! e) < timestamp n"
    proof
      assume "nodes[e := n] = nodes"
      then have "nodes[e := n] ! e = nodes ! e" by simp
      then show False using el that by simp
    qed
    then show ?thesis
      using pn Some by (auto simp: applyOperation_index_unresolved applyOperation_existing)
  qed
next
  case (Some p)
  note ps = Some
  have pl: "p < length nodes" using findIndex_Some_D [OF ps] by simp
  show ?thesis
  proof (cases "findIndex (\<lambda>m. id_node m = id_node n) nodes")
    case (Some e)
    then show ?thesis
      using ps by (simp add: applyOperation_index_existing applyOperation_existing)
  next
    case None
    let ?k = "advance nodes n (p + 1)"
    have l: "applyOperation_index nodes n = insert_at (p + 1) n nodes"
      using ps None by (rule applyOperation_index_fresh)
    have r: "applyOperation nodes n = insert_at ?k n nodes"
      using None ps by (rule applyOperation_fresh_insert_at)
    have kl: "?k \<le> length nodes" using pl by (intro advance_bound) simp
    show ?thesis
    proof (cases "p + 1 < length nodes \<and> earlier_sibling n (nodes ! (p + 1))")
      case True
      then have "?k \<noteq> p + 1" using advance_stays_iff [of nodes n "p + 1"] by simp
      then have lt: "p + 1 < ?k" using advance_le [of "p + 1" nodes n] by simp
      have "nodes ! (p + 1) \<in> set nodes" using True by (intro nth_mem) simp
      then have "nodes ! (p + 1) \<noteq> n"
        using None by (auto simp: findIndex_None_iff)
      then have "insert_at (p + 1) n nodes \<noteq> insert_at ?k n nodes"
        using lt kl by (intro insert_at_differs)
      then show ?thesis using True None ps l r by simp
    next
      case False
      then have "?k = p + 1" using advance_stays_iff [of nodes n "p + 1"] by simp
      then show ?thesis using False None ps l r by auto
    qed
  qed
qed

section \<open>Order dependence of the merge\<close>

text \<open>
  Claim C1. The claim is that two operations whose predecessors are both present in the
  state can be applied in either order with the same resulting node list. The merge does
  not satisfy it: from the state \<open>root, x\<close>, an insert \<open>a\<close> after the root and an insert \<open>b\<close>
  after \<open>x\<close> give \<open>root, x, b, a\<close> in one order and \<open>root, x, a, b\<close> in the other. All ids and
  timestamps are distinct, and both predecessors are in the state.
\<close>

theorem applyOperation_order_dependent:
  "applyOperation
     (applyOperation [rootNode, mkNode ''x1'' ''x'' 100 ''root'' False User1]
        (mkNode ''a1'' ''a'' 200 ''root'' False User1))
     (mkNode ''b1'' ''b'' 300 ''x1'' False User2)
     = [rootNode, mkNode ''x1'' ''x'' 100 ''root'' False User1,
        mkNode ''b1'' ''b'' 300 ''x1'' False User2,
        mkNode ''a1'' ''a'' 200 ''root'' False User1]
   \<and> applyOperation
     (applyOperation [rootNode, mkNode ''x1'' ''x'' 100 ''root'' False User1]
        (mkNode ''b1'' ''b'' 300 ''x1'' False User2))
     (mkNode ''a1'' ''a'' 200 ''root'' False User1)
     = [rootNode, mkNode ''x1'' ''x'' 100 ''root'' False User1,
        mkNode ''a1'' ''a'' 200 ''root'' False User1,
        mkNode ''b1'' ''b'' 300 ''x1'' False User2]"
  by code_simp

section \<open>Sibling order\<close>




section \<open>Last write wins on an existing id\<close>

text \<open>
  Claim C3, as \<^verbatim>\<open>src/index.tsx\<close> has it. The claim says that an incoming node whose id is
  in the state and whose timestamp is strictly greater replaces the existing node. The merge
  of \<^verbatim>\<open>src/index.tsx\<close> (lines 51-68) looks the predecessor up first and returns the list
  as it is when there is none: a tombstone of the root with a later timestamp, whose
  \<^verbatim>\<open>previousId\<close> is \<^verbatim>\<open>null\<close>, is not written, where the merge of the second component of
  \<^verbatim>\<open>src/unnamed/part_001\<close> writes it.
\<close>

theorem applyOperation_index_newer_not_written:
  "applyOperation_index [rootNode] (rootNode\<lparr>removed := True, timestamp := 1006\<rparr>) = [rootNode]
   \<and> timestamp rootNode < timestamp (rootNode\<lparr>removed := True, timestamp := 1006\<rparr>)
   \<and> applyOperation [rootNode] (rootNode\<lparr>removed := True, timestamp := 1006\<rparr>)
       = [rootNode\<lparr>removed := True, timestamp := 1006\<rparr>]"
  by code_simp

text \<open>
  Claim C3, amended. When the state already holds a node with the id of the incoming node,
  let \<open>e\<close> be the position of the first such node. If its timestamp is greater than or equal
  to the incoming timestamp, both merges return the state unchanged. If the incoming
  timestamp is strictly greater, the merge of the second and third components of
  \<^verbatim>\<open>src/unnamed/part_001\<close> returns the state with position \<open>e\<close> overwritten by the incoming
  node, every other position and the length being as before; the merge of
  \<^verbatim>\<open>src/index.tsx\<close> does the same when the predecessor named by the incoming node is in the
  state, and returns the state unchanged when it is not.
\<close>

theorem applyOperation_last_write_wins:
  assumes "\<exists>n \<in> set s. id_node n = id_node incoming"
  shows "\<exists>e < length s. id_node (s ! e) = id_node incoming
           \<and> (\<forall>j < e. id_node (s ! j) \<noteq> id_node incoming)
           \<and> (timestamp (s ! e) \<ge> timestamp incoming \<longrightarrow> applyOperation s incoming = s)
           \<and> (timestamp (s ! e) < timestamp incoming
                \<longrightarrow> applyOperation s incoming = s[e := incoming])
           \<and> ((\<exists>m \<in> set s. Some (id_node m) = previousId incoming)
                \<longrightarrow> applyOperation_index s incoming = applyOperation s incoming)
           \<and> (timestamp (s ! e) \<ge> timestamp incoming \<longrightarrow> applyOperation_index s incoming = s)
           \<and> (timestamp (s ! e) < timestamp incoming
                  \<and> (\<exists>m \<in> set s. Some (id_node m) = previousId incoming)
                \<longrightarrow> applyOperation_index s incoming = s[e := incoming])
           \<and> ((\<forall>m \<in> set s. Some (id_node m) \<noteq> previousId incoming)
                \<longrightarrow> applyOperation_index s incoming = s)"
proof -
  from assms obtain e where e: "findIndex (\<lambda>n. id_node n = id_node incoming) s = Some e"
    by (cases "findIndex (\<lambda>n. id_node n = id_node incoming) s")
       (auto simp: findIndex_None_iff)
  from findIndex_Some_D [OF e]
  have 1: "e < length s" "id_node (s ! e) = id_node incoming"
    "\<forall>j < e. id_node (s ! j) \<noteq> id_node incoming" by auto
  have 2: "timestamp (s ! e) \<ge> timestamp incoming \<longrightarrow> applyOperation s incoming = s"
    and 3: "timestamp (s ! e) < timestamp incoming
              \<longrightarrow> applyOperation s incoming = s[e := incoming]"
    using applyOperation_existing [OF e] by simp_all
  have 4: "(\<exists>m \<in> set s. Some (id_node m) = previousId incoming)
             \<longrightarrow> applyOperation_index s incoming = applyOperation s incoming"
    using applyOperation_index_existing_resolved [OF assms] by blast
  have 5: "timestamp (s ! e) \<ge> timestamp incoming \<longrightarrow> applyOperation_index s incoming = s"
    using applyOperation_index_on_existing(1) [OF e] by blast
  have 6: "timestamp (s ! e) < timestamp incoming
              \<and> (\<exists>m \<in> set s. Some (id_node m) = previousId incoming)
            \<longrightarrow> applyOperation_index s incoming = s[e := incoming]"
    using applyOperation_index_on_existing(2) [OF e] by blast
  have 7: "(\<forall>m \<in> set s. Some (id_node m) \<noteq> previousId incoming)
            \<longrightarrow> applyOperation_index s incoming = s"
    using applyOperation_index_on_existing(3) [OF e] by blast
  from 1 2 3 4 5 6 7 show ?thesis by blast
qed

theorem applyOperation_last_write_wins_witness:
  "applyOperation [rootNode, mkNode ''h1'' ''h'' 1000 ''root'' False User1]
       (mkNode ''h1'' ''h'' 1006 ''root'' True User1)
     = [rootNode, mkNode ''h1'' ''h'' 1006 ''root'' True User1]
   \<and> applyOperation [rootNode, mkNode ''h1'' ''h'' 1006 ''root'' True User1]
       (mkNode ''h1'' ''h'' 1000 ''root'' False User1)
     = [rootNode, mkNode ''h1'' ''h'' 1006 ''root'' True User1]
   \<and> applyOperation_index [rootNode, mkNode ''h1'' ''h'' 1000 ''root'' False User1]
       (mkNode ''h1'' ''h'' 1006 ''root'' True User1)
     = [rootNode, mkNode ''h1'' ''h'' 1006 ''root'' True User1]
   \<and> applyOperation_index [rootNode, mkNode ''h1'' ''h'' 1006 ''root'' True User1]
       (mkNode ''h1'' ''h'' 1000 ''root'' False User1)
     = [rootNode, mkNode ''h1'' ''h'' 1006 ''root'' True User1]
   \<and> applyOperation_index [rootNode, mkNode ''h1'' ''h'' 1000 ''root'' False User1]
       (mkNode ''h1'' ''h'' 1006 ''zz'' True User1)
     = [rootNode, mkNode ''h1'' ''h'' 1000 ''root'' False User1]"
proof -
  have "applyOperation [rootNode, mkNode ''h1'' ''h'' 1000 ''root'' False User1]
            (mkNode ''h1'' ''h'' 1006 ''root'' True User1)
          = [rootNode, mkNode ''h1'' ''h'' 1006 ''root'' True User1]
        \<and> applyOperation_index [rootNode, mkNode ''h1'' ''h'' 1000 ''root'' False User1]
            (mkNode ''h1'' ''h'' 1006 ''root'' True User1)
          = [rootNode, mkNode ''h1'' ''h'' 1006 ''root'' True User1]"
    using applyOperation_last_write_wins
            [of "[rootNode, mkNode ''h1'' ''h'' 1000 ''root'' False User1]"
                "mkNode ''h1'' ''h'' 1006 ''root'' True User1"]
    by (auto simp: rootNode_def mkNode_def less_Suc_eq)
  moreover
  have "applyOperation [rootNode, mkNode ''h1'' ''h'' 1006 ''root'' True User1]
            (mkNode ''h1'' ''h'' 1000 ''root'' False User1)
          = [rootNode, mkNode ''h1'' ''h'' 1006 ''root'' True User1]
        \<and> applyOperation_index [rootNode, mkNode ''h1'' ''h'' 1006 ''root'' True User1]
            (mkNode ''h1'' ''h'' 1000 ''root'' False User1)
          = [rootNode, mkNode ''h1'' ''h'' 1006 ''root'' True User1]"
    using applyOperation_last_write_wins
            [of "[rootNode, mkNode ''h1'' ''h'' 1006 ''root'' True User1]"
                "mkNode ''h1'' ''h'' 1000 ''root'' False User1"]
    by (auto simp: rootNode_def mkNode_def less_Suc_eq)
  moreover
  have "applyOperation_index [rootNode, mkNode ''h1'' ''h'' 1000 ''root'' False User1]
            (mkNode ''h1'' ''h'' 1006 ''zz'' True User1)
          = [rootNode, mkNode ''h1'' ''h'' 1000 ''root'' False User1]"
    using applyOperation_last_write_wins
            [of "[rootNode, mkNode ''h1'' ''h'' 1000 ''root'' False User1]"
                "mkNode ''h1'' ''h'' 1006 ''zz'' True User1"]
    by (auto simp: rootNode_def mkNode_def less_Suc_eq)
  ultimately show ?thesis by simp
qed

section \<open>Idempotence\<close>

lemma applyOperation_twice:
  "applyOperation (applyOperation s op) op = applyOperation s op"
proof (cases "findIndex (\<lambda>n. id_node n = id_node op) s")
  case (Some e)
  show ?thesis
  proof (cases "timestamp (s ! e) \<ge> timestamp op")
    case True
    then show ?thesis using Some by (simp add: applyOperation_existing)
  next
    case False
    have "findIndex (\<lambda>n. id_node n = id_node op) (s[e := op]) = Some e"
      using Some by (rule findIndex_update_same) simp
    moreover have "e < length s" using findIndex_Some_D [OF Some] by simp
    ultimately show ?thesis
      using Some False by (simp add: applyOperation_existing)
  qed
next
  case None
  show ?thesis
  proof (cases "findIndex (\<lambda>n. Some (id_node n) = previousId op) s")
    case N2: None
    then show ?thesis using None by (simp add: applyOperation_unresolved)
  next
    case (Some p)
    let ?k = "advance s op (p + 1)"
    have r: "applyOperation s op = take ?k s @ [op] @ drop ?k s"
      using None Some by (rule applyOperation_fresh)
    have "findIndex (\<lambda>n. id_node n = id_node op) (take ?k s @ [op] @ drop ?k s)
            = Some (min ?k (length s))"
      using None by (rule findIndex_insert) simp
    moreover have k: "?k \<le> length s"
      using findIndex_Some_D [OF Some] by (intro advance_bound) simp
    ultimately have
      "findIndex (\<lambda>n. id_node n = id_node op) (take ?k s @ [op] @ drop ?k s) = Some ?k"
      by (simp add: min_absorb1)
    moreover have "(take ?k s @ [op] @ drop ?k s) ! ?k = op"
      using k by (simp add: nth_append)
    ultimately show ?thesis
      unfolding r by (simp add: applyOperation_existing del: append.simps)
  qed
qed

text \<open>
  Claim C4. Applying the same operation twice gives the same node list as applying it once,
  for every node list and every operation; this holds of the merge of the second and third
  components of \<^verbatim>\<open>src/unnamed/part_001\<close> and of the merge of \<^verbatim>\<open>src/index.tsx\<close>.
\<close>

theorem applyOperation_idempotent:
  "applyOperation (applyOperation s op) op = applyOperation s op
   \<and> applyOperation_index (applyOperation_index s op) op = applyOperation_index s op"
  by (simp add: applyOperation_twice applyOperation_index_idempotent)

section \<open>The concurrent delete and insert example\<close>

text \<open>
  Claim C5, as the source has it. The claim says that after both replicas of the example
  have applied every node of the other, the visible sequence is empty on both sides. In the
  source the inserted node \<open>X\<close> is never tombstoned and stays: the visible sequence of either
  replica is not empty.
\<close>

theorem example2_visible_not_empty:
  "nonRootNodes (user1Nodes example2_synced) \<noteq> []
   \<and> nonRootNodes (user2Nodes example2_synced) \<noteq> []"
  by code_simp

text \<open>
  Claim C5, amended. After both replicas of the example have applied every node of the
  other, they hold the same node list: the root, the five tombstoned characters of
  \<open>hello\<close> and, after the third, the node \<open>X\<close>; the visible sequence is the single node \<open>X\<close>
  on both sides.
\<close>

theorem example2_converges_to_X:
  "user1Nodes example2_synced
     = [rootNode,
        mkNode ''h1'' ''h'' 1006 ''root'' True User1,
        mkNode ''e1'' ''e'' 1007 ''h1'' True User1,
        mkNode ''l1'' ''l'' 1008 ''e1'' True User1,
        mkNode ''x1'' ''X'' 1005 ''l1'' False User2,
        mkNode ''l2'' ''l'' 1009 ''l1'' True User1,
        mkNode ''o1'' ''o'' 1010 ''l2'' True User1]
   \<and> user2Nodes example2_synced = user1Nodes example2_synced
   \<and> nonRootNodes (user1Nodes example2_synced) = [mkNode ''x1'' ''X'' 1005 ''l1'' False User2]
   \<and> nonRootNodes (user2Nodes example2_synced) = [mkNode ''x1'' ''X'' 1005 ''l1'' False User2]"
  by code_simp

section \<open>Operations whose predecessor is unknown\<close>

text \<open>
  Claim C6. When no node of the state has the id of the incoming node and no node of the
  state has the id named by its \<^verbatim>\<open>previousId\<close>, the merge returns the state unchanged,
  in the second and third components of \<^verbatim>\<open>src/unnamed/part_001\<close> and in \<^verbatim>\<open>src/index.tsx\<close>.
  The merge is a total function, so it returns on every input.
\<close>

theorem applyOperation_unresolved_dropped:
  assumes "\<forall>n \<in> set s. id_node n \<noteq> id_node incoming"
    and "\<forall>n \<in> set s. Some (id_node n) \<noteq> previousId incoming"
  shows "applyOperation s incoming = s \<and> applyOperation_index s incoming = s"
  using assms
  by (simp add: applyOperation_unresolved applyOperation_index_unresolved findIndex_None_iff)

theorem applyOperation_unresolved_dropped_witness:
  "applyOperation [rootNode] (mkNode ''b1'' ''b'' 7 ''a1'' False User2) = [rootNode]
   \<and> applyOperation_index [rootNode] (mkNode ''b1'' ''b'' 7 ''a1'' False User2) = [rootNode]"
  using applyOperation_unresolved_dropped
          [of "[rootNode]" "mkNode ''b1'' ''b'' 7 ''a1'' False User2"]
  by (simp add: rootNode_def mkNode_def)

section \<open>Nodes are never removed\<close>

text \<open>
  Claim C7. For every state and operation, every id of the state is an id of the merged
  state and the merged state is at least as long, with the merge of the second and third
  components of \<^verbatim>\<open>src/unnamed/part_001\<close> and with that of \<^verbatim>\<open>src/index.tsx\<close>. A deletion
  (\<^verbatim>\<open>handleDelete\<close> of \<^verbatim>\<open>src/index.tsx\<close>) whose visible target exists
  leaves the list of ids of the local replica exactly as it was: the replica is either
  unchanged or has, at the first position holding the target's id, the target with
  \<open>removed = True\<close> and the new timestamp, and it has the latter when the new timestamp is
  greater than the one stored there and the target's predecessor is in the replica. This
  holds with the merge of either component. A deletion without a target changes nothing.
\<close>

theorem nodes_never_removed:
  "set (map id_node s) \<subseteq> set (map id_node (applyOperation s op))
   \<and> length s \<le> length (applyOperation s op)
   \<and> set (map id_node s) \<subseteq> set (map id_node (applyOperation_index s op))
   \<and> length s \<le> length (applyOperation_index s op)
   \<and> ((apply = applyOperation \<or> apply = applyOperation_index)
        \<and> at_index (visibleNodes (nodesOf a st)) (position + 1) = Some targetNode
      \<longrightarrow> map id_node (nodesOf a (handleDelete apply now position a True st))
            = map id_node (nodesOf a st)
          \<and> (\<exists>i < length (nodesOf a st).
                id_node (nodesOf a st ! i) = id_node targetNode
                \<and> (\<forall>j < i. id_node (nodesOf a st ! j) \<noteq> id_node targetNode)
                \<and> (nodesOf a (handleDelete apply now position a True st) = nodesOf a st
                    \<or> nodesOf a (handleDelete apply now position a True st)
                        = (nodesOf a st)[i := targetNode\<lparr>removed := True, timestamp := now\<rparr>])
                \<and> (timestamp (nodesOf a st ! i) < now
                      \<and> (\<exists>n \<in> set (nodesOf a st). Some (id_node n) = previousId targetNode)
                    \<longrightarrow> nodesOf a (handleDelete apply now position a True st)
                        = (nodesOf a st)[i := targetNode\<lparr>removed := True, timestamp := now\<rparr>])))
   \<and> (at_index (visibleNodes (nodesOf a st)) (position + 1) = None
      \<longrightarrow> handleDelete apply now position a True st = st)"
proof (intro conjI impI)
  show "set (map id_node s) \<subseteq> set (map id_node (applyOperation s op))"
    and "length s \<le> length (applyOperation s op)"
    using applyOperation_keeps_ids [of s op] by simp_all
next
  show "set (map id_node s) \<subseteq> set (map id_node (applyOperation_index s op))"
    and "length s \<le> length (applyOperation_index s op)"
    using applyOperation_index_keeps_ids [of s op] by simp_all
next
  assume h: "(apply = applyOperation \<or> apply = applyOperation_index)
        \<and> at_index (visibleNodes (nodesOf a st)) (position + 1) = Some targetNode"
  let ?nodes = "nodesOf a st"
  let ?d = "targetNode\<lparr>removed := True, timestamp := now\<rparr>"
  have r: "nodesOf a (handleDelete apply now position a True st) = apply ?nodes ?d"
    using h by (simp add: handleDelete_def Let_def nodesOf_updateNodes)
  have "targetNode \<in> set ?nodes"
    using h at_index_Some_D [of "visibleNodes ?nodes" "position + 1" targetNode]
    by (simp add: visibleNodes_def)
  then obtain e where e: "findIndex (\<lambda>n. id_node n = id_node ?d) ?nodes = Some e"
    by (cases "findIndex (\<lambda>n. id_node n = id_node ?d) ?nodes")
       (auto simp: findIndex_None_iff)
  from findIndex_Some_D [OF e] have el: "e < length ?nodes" "id_node (?nodes ! e) = id_node ?d"
    by auto
  have sh: "apply ?nodes ?d = ?nodes \<or> apply ?nodes ?d = ?nodes[e := ?d]"
    using h e by (intro existing_id_shape(1)) auto
  have sh2: "apply ?nodes ?d = ?nodes[e := ?d]"
    if "timestamp (?nodes ! e) < now
          \<and> (\<exists>n \<in> set ?nodes. Some (id_node n) = previousId targetNode)"
    using h e that by (intro existing_id_shape(2)) auto
  show "map id_node (nodesOf a (handleDelete apply now position a True st))
          = map id_node ?nodes"
    unfolding r using sh map_id_node_update [OF el] by auto
  show "\<exists>i < length ?nodes. id_node (?nodes ! i) = id_node targetNode
          \<and> (\<forall>j < i. id_node (?nodes ! j) \<noteq> id_node targetNode)
          \<and> (nodesOf a (handleDelete apply now position a True st) = ?nodes
              \<or> nodesOf a (handleDelete apply now position a True st) = ?nodes[i := ?d])
          \<and> (timestamp (?nodes ! i) < now
                \<and> (\<exists>n \<in> set ?nodes. Some (id_node n) = previousId targetNode)
              \<longrightarrow> nodesOf a (handleDelete apply now position a True st) = ?nodes[i := ?d])"
    unfolding r using sh sh2 el findIndex_Some_D [OF e] by (intro exI [of _ e]) auto
next
  assume "at_index (visibleNodes (nodesOf a st)) (position + 1) = None"
  then show "handleDelete apply now position a True st = st"
    by (simp add: handleDelete_def Let_def)
qed

theorem nodes_never_removed_witness:
  "user1Nodes (handleDelete applyOperation_index 1006 0 User1 True
       (initialEditor\<lparr>user1Nodes := [rootNode, mkNode ''h1'' ''h'' 1000 ''root'' False User1]\<rparr>))
     = [rootNode, mkNode ''h1'' ''h'' 1006 ''root'' True User1]
   \<and> handleDelete applyOperation_index 1006 5 User1 True initialEditor = initialEditor"
  using nodes_never_removed
          [of "[rootNode]" "mkNode ''h1'' ''h'' 1000 ''root'' False User1"
              applyOperation_index User1
              "initialEditor\<lparr>user1Nodes := [rootNode, mkNode ''h1'' ''h'' 1000 ''root'' False User1]\<rparr>"
              0 "mkNode ''h1'' ''h'' 1000 ''root'' False User1" 1006]
        nodes_never_removed
          [of "[rootNode]" "mkNode ''h1'' ''h'' 1000 ''root'' False User1"
              applyOperation_index User1 initialEditor 5
              "mkNode ''h1'' ''h'' 1000 ''root'' False User1" 1006]
  by (auto simp: initialEditor_def rootNode_def mkNode_def visibleNodes_def at_index_def
                 less_Suc_eq)

section \<open>Causal positioning\<close>

text \<open>
  Claim C8, as the first component of \<^verbatim>\<open>src/unnamed/part_001\<close> has it. The claim says
  that the function returns the root id at the position right after the root and otherwise
  the id of the \<open>i\<close>-th visible node. The copy of lines 42-45 reads \<^verbatim>\<open>vnodes[position - 1]\<close>:
  on \<open>root, a\<close> it returns the root id at index \<open>1\<close>, where the visible sequence is \<open>a\<close> and the
  position right after the root is index \<open>0\<close>; on \<open>root, a, b, c\<close> it returns the id of \<open>a\<close> at
  index \<open>2\<close>.
\<close>

theorem findInsertPosition_first_off_by_one:
  "findInsertPosition_first 1 [rootNode, mkNode ''a1'' ''a'' 100 ''root'' False User1] = ''root''
   \<and> filter (\<lambda>n. \<not> removed n \<and> id_node n \<noteq> ''root'')
        [rootNode, mkNode ''a1'' ''a'' 100 ''root'' False User1]
       = [mkNode ''a1'' ''a'' 100 ''root'' False User1]
   \<and> findInsertPosition_first 2
        [rootNode, mkNode ''a1'' ''a'' 100 ''root'' False User1,
         mkNode ''b1'' ''b'' 200 ''a1'' False User1, mkNode ''c1'' ''c'' 300 ''b1'' False User1]
       = ''a1''"
  by code_simp

text \<open>
  Claim C8, amended. For every node list and every index \<open>i\<close>, \<^verbatim>\<open>findInsertPosition\<close> of
  \<^verbatim>\<open>src/index.tsx\<close> (the second and third components of \<^verbatim>\<open>src/unnamed/part_001\<close> have the
  same text) returns the id of the node at index \<open>i\<close>, counted from zero, of the list of
  untombstoned nodes, in which the root is kept; it returns the root id when \<open>i\<close> is \<open>0\<close> or
  negative, when there is no such node and when that node's id is empty. The copy of the
  first component of \<^verbatim>\<open>src/unnamed/part_001\<close> reads index \<open>i - 1\<close> of the same list. Hence, on
  a replica whose first node is the root, not tombstoned, and whose other nodes have ids
  that are neither the root's nor empty, the former returns the root id when \<open>i\<close> is \<open>0\<close>,
  negative or greater than the number of nodes that are neither tombstoned nor the root,
  and otherwise the id of the \<open>i\<close>-th of these nodes counted from one, the node just before
  the cursor; the latter is one position behind.
\<close>

theorem findInsertPosition_visible_index:
  "findInsertPosition i nodes
     = (if i \<le> 0 \<or> int (length (filter (\<lambda>n. \<not> removed n) nodes)) \<le> i
           \<or> id_node (filter (\<lambda>n. \<not> removed n) nodes ! nat i) = []
        then ''root'' else id_node (filter (\<lambda>n. \<not> removed n) nodes ! nat i))
   \<and> findInsertPosition_first i nodes
     = (if i \<le> 0 \<or> int (length (filter (\<lambda>n. \<not> removed n) nodes)) < i
           \<or> id_node (filter (\<lambda>n. \<not> removed n) nodes ! nat (i - 1)) = []
        then ''root'' else id_node (filter (\<lambda>n. \<not> removed n) nodes ! nat (i - 1)))
   \<and> (root_first nodes
        \<longrightarrow> findInsertPosition i nodes
              = (if i \<le> 0
                    \<or> int (length (filter (\<lambda>n. \<not> removed n \<and> id_node n \<noteq> ''root'') nodes)) < i
                 then ''root''
                 else id_node (filter (\<lambda>n. \<not> removed n \<and> id_node n \<noteq> ''root'') nodes
                                 ! nat (i - 1)))
          \<and> findInsertPosition_first i nodes
              = (if i \<le> 1
                    \<or> int (length (filter (\<lambda>n. \<not> removed n \<and> id_node n \<noteq> ''root'') nodes)) + 1 < i
                 then ''root''
                 else id_node (filter (\<lambda>n. \<not> removed n \<and> id_node n \<noteq> ''root'') nodes
                                 ! nat (i - 2))))"
proof (intro conjI impI)
  show "findInsertPosition i nodes
     = (if i \<le> 0 \<or> int (length (filter (\<lambda>n. \<not> removed n) nodes)) \<le> i
           \<or> id_node (filter (\<lambda>n. \<not> removed n) nodes ! nat i) = []
        then ''root'' else id_node (filter (\<lambda>n. \<not> removed n) nodes ! nat i))"
    by (auto simp: findInsertPosition_def visibleNodes_def id_or_root_at_index)
  show "findInsertPosition_first i nodes
     = (if i \<le> 0 \<or> int (length (filter (\<lambda>n. \<not> removed n) nodes)) < i
           \<or> id_node (filter (\<lambda>n. \<not> removed n) nodes ! nat (i - 1)) = []
        then ''root'' else id_node (filter (\<lambda>n. \<not> removed n) nodes ! nat (i - 1)))"
    by (auto simp: findInsertPosition_first_def visibleNodes_def id_or_root_at_index)
next
  assume r: "root_first nodes"
  note v = root_first_visible [OF r]
  have h: "id_or_root (Some (hd nodes)) = ''root''"
    using r by (auto simp: root_first_def id_or_root_def split: list.splits)
  show "findInsertPosition i nodes
          = (if i \<le> 0
                \<or> int (length (filter (\<lambda>n. \<not> removed n \<and> id_node n \<noteq> ''root'') nodes)) < i
             then ''root''
             else id_node (filter (\<lambda>n. \<not> removed n \<and> id_node n \<noteq> ''root'') nodes
                             ! nat (i - 1)))"
    using id_or_root_at_index_Cons [OF v(2), of "hd nodes" i] h
    unfolding nonRootNodes_filter [symmetric]
    by (auto simp: findInsertPosition_def v(1))
  show "findInsertPosition_first i nodes
          = (if i \<le> 1
                \<or> int (length (filter (\<lambda>n. \<not> removed n \<and> id_node n \<noteq> ''root'') nodes)) + 1 < i
             then ''root''
             else id_node (filter (\<lambda>n. \<not> removed n \<and> id_node n \<noteq> ''root'') nodes
                             ! nat (i - 2)))"
    using id_or_root_at_index_Cons [OF v(2), of "hd nodes" "i - 1"] h
    unfolding nonRootNodes_filter [symmetric]
    by (auto simp: findInsertPosition_first_def v(1))
qed

theorem findInsertPosition_visible_index_witness:
  "findInsertPosition 2
       [rootNode, mkNode ''a1'' ''a'' 100 ''root'' False User1,
        mkNode ''b1'' ''b'' 200 ''a1'' True User1, mkNode ''c1'' ''c'' 300 ''b1'' False User1]
     = ''c1''
   \<and> findInsertPosition_first 2
       [rootNode, mkNode ''a1'' ''a'' 100 ''root'' False User1,
        mkNode ''b1'' ''b'' 200 ''a1'' True User1, mkNode ''c1'' ''c'' 300 ''b1'' False User1]
     = ''a1''"
  using findInsertPosition_visible_index
          [of 2 "[rootNode, mkNode ''a1'' ''a'' 100 ''root'' False User1,
                  mkNode ''b1'' ''b'' 200 ''a1'' True User1,
                  mkNode ''c1'' ''c'' 300 ''b1'' False User1]"]
  by (simp add: root_first_def rootNode_def mkNode_def)

section \<open>Insertion at an index outside the visible sequence\<close>

text \<open>
  Claim C9, as the source has it. The claim says that an insert at an invalid visible index
  builds no node, applies nothing and sends nothing. In the source the position falls back
  to the root: on the initial replica, whose visible sequence is empty, an insert at index
  \<open>5\<close> builds a node with \<^verbatim>\<open>previousId = 'root'\<close>, applies it to the local replica and
  schedules its delivery to the other replica.
\<close>

theorem handleInsert_invalid_index_inserts:
  "user1Nodes (handleInsert applyOperation_index ''n1'' 50 ''z'' 5 User1 True initialEditor)
     = [rootNode, mkNode ''n1'' ''z'' 50 ''root'' False User1]
   \<and> timers (handleInsert applyOperation_index ''n1'' 50 ''z'' 5 User1 True initialEditor)
     = [(User2, mkNode ''n1'' ''z'' 50 ''root'' False User1)]"
  by code_simp

text \<open>
  Claim C9, amended. For every position that is negative or not below the number of
  untombstoned nodes of the author's replica, \<^verbatim>\<open>findInsertPosition\<close> returns the root id
  and the insert builds a new node with \<^verbatim>\<open>previousId = 'root'\<close>: the node is applied to
  the author's replica when \<^verbatim>\<open>immediateUpdate\<close> is set, its delivery to the other replica
  is scheduled unless the component is offline, the other replica is untouched and the
  author's cursor moves one to the right. With the merge of either component, a replica
  that holds the root and not the new id has the new node afterwards and is one longer.
\<close>

theorem handleInsert_invalid_index:
  assumes "position < 0 \<or> int (length (visibleNodes (nodesOf a st))) \<le> position"
  shows "findInsertPosition position (nodesOf a st) = ''root''
       \<and> nodesOf a (handleInsert apply newId now v position a imm st)
           = (if imm
              then apply (nodesOf a st)
                     \<lparr>id_node = newId, value_node = v, timestamp = now,
                      previousId = Some ''root'', removed = False, author = a\<rparr>
              else nodesOf a st)
       \<and> nodesOf (remoteOf a) (handleInsert apply newId now v position a imm st)
           = nodesOf (remoteOf a) st
       \<and> timers (handleInsert apply newId now v position a imm st)
           = (if isOffline st then timers st
              else timers st @ [(remoteOf a,
                     \<lparr>id_node = newId, value_node = v, timestamp = now,
                      previousId = Some ''root'', removed = False, author = a\<rparr>)])
       \<and> cursorPos (handleInsert apply newId now v position a imm st) a = cursorPos st a + 1
       \<and> ((apply = applyOperation \<or> apply = applyOperation_index) \<and> imm
            \<and> (\<exists>n \<in> set (nodesOf a st). id_node n = ''root'')
            \<and> (\<forall>n \<in> set (nodesOf a st). id_node n \<noteq> newId)
          \<longrightarrow> \<lparr>id_node = newId, value_node = v, timestamp = now,
                previousId = Some ''root'', removed = False, author = a\<rparr>
                \<in> set (nodesOf a (handleInsert apply newId now v position a imm st))
              \<and> length (nodesOf a (handleInsert apply newId now v position a imm st))
                  = length (nodesOf a st) + 1)"
proof -
  let ?n = "\<lparr>id_node = newId, value_node = v, timestamp = now,
             previousId = Some ''root'', removed = False, author = a\<rparr>"
  have p: "findInsertPosition position (nodesOf a st) = ''root''"
    using assms by (rule findInsertPosition_out_of_range)
  have h: "handleInsert apply newId now v position a imm st
             = (updateNodes apply a ?n imm st)
                 \<lparr>cursorPos := (cursorPos (updateNodes apply a ?n imm st))
                    (a := cursorPos (updateNodes apply a ?n imm st) a + 1)\<rparr>"
    by (simp add: handleInsert_def Let_def p)
  have 1: "nodesOf a (handleInsert apply newId now v position a imm st)
             = (if imm then apply (nodesOf a st) ?n else nodesOf a st)"
    by (simp add: h nodesOf_updateNodes)
  have 2: "nodesOf (remoteOf a) (handleInsert apply newId now v position a imm st)
             = nodesOf (remoteOf a) st"
    by (simp add: h nodesOf_remote_updateNodes)
  have 3: "timers (handleInsert apply newId now v position a imm st)
             = (if isOffline st then timers st else timers st @ [(remoteOf a, ?n)])"
    by (simp add: h timers_updateNodes)
  have 4: "cursorPos (handleInsert apply newId now v position a imm st) a = cursorPos st a + 1"
    by (simp add: h cursorPos_updateNodes)
  have 5: "?n \<in> set (nodesOf a (handleInsert apply newId now v position a imm st))
             \<and> length (nodesOf a (handleInsert apply newId now v position a imm st))
                 = length (nodesOf a st) + 1"
    if c: "(apply = applyOperation \<or> apply = applyOperation_index) \<and> imm
            \<and> (\<exists>n \<in> set (nodesOf a st). id_node n = ''root'')
            \<and> (\<forall>n \<in> set (nodesOf a st). id_node n \<noteq> newId)"
  proof -
    have f: "findIndex (\<lambda>n. id_node n = id_node ?n) (nodesOf a st) = None"
      using c by (simp add: findIndex_None_iff)
    obtain q where q: "findIndex (\<lambda>n. Some (id_node n) = previousId ?n) (nodesOf a st) = Some q"
      using c by (cases "findIndex (\<lambda>n. Some (id_node n) = previousId ?n) (nodesOf a st)")
                 (auto simp: findIndex_None_iff)
    have "\<exists>k. apply (nodesOf a st) ?n = insert_at k ?n (nodesOf a st)"
      using c applyOperation_fresh_insert_at [OF f q] applyOperation_index_fresh [OF q f]
      by auto
    then obtain k where "apply (nodesOf a st) ?n = insert_at k ?n (nodesOf a st)" ..
    moreover have "nodesOf a (handleInsert apply newId now v position a imm st)
                 = apply (nodesOf a st) ?n"
      using c 1 by simp
    ultimately have "nodesOf a (handleInsert apply newId now v position a imm st)
                 = insert_at k ?n (nodesOf a st)"
      by simp
    then show ?thesis by (simp add: in_set_insert_at)
  qed
  from p 1 2 3 4 5 show ?thesis by blast
qed

theorem handleInsert_invalid_index_witness:
  "findInsertPosition (-1) [rootNode] = ''root''
   \<and> mkNode ''n1'' ''z'' 50 ''root'' False User1
       \<in> set (user1Nodes (handleInsert applyOperation ''n1'' 50 ''z'' (-1) User1 True initialEditor))
   \<and> timers (handleInsert applyOperation ''n1'' 50 ''z'' (-1) User1 True initialEditor)
       = [(User2, mkNode ''n1'' ''z'' 50 ''root'' False User1)]"
  using handleInsert_invalid_index
          [of "-1" User1 initialEditor applyOperation "''n1''" 50 "''z''" True]
  by (auto simp: initialEditor_def rootNode_def mkNode_def visibleNodes_def)

section \<open>The copies of the merge function\<close>

text \<open>
  Claim C10, as the source has it. The claim says that all copies of the merge return the
  same list on every input. On the state \<open>root, x\<close> and a new node \<open>a\<close> after the root with
  a later timestamp than \<open>x\<close>, the copy of \<^verbatim>\<open>src/index.tsx\<close> puts \<open>a\<close> before \<open>x\<close> and
  the copy of the second component of \<^verbatim>\<open>src/unnamed/part_001\<close> puts it after \<open>x\<close>.
\<close>

theorem applyOperation_copies_differ:
  "applyOperation_index [rootNode, mkNode ''x1'' ''x'' 100 ''root'' False User1]
       (mkNode ''a1'' ''a'' 200 ''root'' False User1)
     = [rootNode, mkNode ''a1'' ''a'' 200 ''root'' False User1,
        mkNode ''x1'' ''x'' 100 ''root'' False User1]
   \<and> applyOperation [rootNode, mkNode ''x1'' ''x'' 100 ''root'' False User1]
       (mkNode ''a1'' ''a'' 200 ''root'' False User1)
     = [rootNode, mkNode ''x1'' ''x'' 100 ''root'' False User1,
        mkNode ''a1'' ''a'' 200 ''root'' False User1]"
  by code_simp

text \<open>
  Claim C10, amended. The copies of the second and third components of
  \<^verbatim>\<open>src/unnamed/part_001\<close> return the same list on every input, and so do the copy of
  \<^verbatim>\<open>src/index.tsx\<close> and that of the first component. The two pairs return the same list
  except in two cases: the incoming id is in the list with a smaller timestamp while the
  incoming predecessor is not (the first pair returns the list unchanged, the second
  overwrites the node); or the incoming id is not in the list, the predecessor is, and the
  node right after the predecessor has the same \<^verbatim>\<open>previousId\<close> as the incoming node and a
  smaller timestamp (the first pair splices the node in right after the predecessor, the
  second after the run of such nodes).
\<close>

theorem applyOperation_copies:
  "applyOperation_third nodes n = applyOperation nodes n
   \<and> applyOperation_first nodes n = applyOperation_index nodes n
   \<and> (applyOperation_index nodes n = applyOperation nodes n \<longleftrightarrow>
        \<not> ((\<exists>e. findIndex (\<lambda>m. id_node m = id_node n) nodes = Some e
                 \<and> findIndex (\<lambda>m. Some (id_node m) = previousId n) nodes = None
                 \<and> timestamp (nodes ! e) < timestamp n)
           \<or> (\<exists>p. findIndex (\<lambda>m. id_node m = id_node n) nodes = None
                 \<and> findIndex (\<lambda>m. Some (id_node m) = previousId n) nodes = Some p
                 \<and> p + 1 < length nodes \<and> earlier_sibling n (nodes ! (p + 1)))))"
proof (intro conjI)
  show "applyOperation_third nodes n = applyOperation nodes n"
    by (simp add: applyOperation_third_def applyOperation_def)
  show "applyOperation_first nodes n = applyOperation_index nodes n"
    by (rule applyOperation_first_eq_index)
  show "applyOperation_index nodes n = applyOperation nodes n \<longleftrightarrow>
        \<not> ((\<exists>e. findIndex (\<lambda>m. id_node m = id_node n) nodes = Some e
                 \<and> findIndex (\<lambda>m. Some (id_node m) = previousId n) nodes = None
                 \<and> timestamp (nodes ! e) < timestamp n)
           \<or> (\<exists>p. findIndex (\<lambda>m. id_node m = id_node n) nodes = None
                 \<and> findIndex (\<lambda>m. Some (id_node m) = previousId n) nodes = Some p
                 \<and> p + 1 < length nodes \<and> earlier_sibling n (nodes ! (p + 1))))"
    by (rule applyOperation_index_eq_iff)
qed

theorem applyOperation_copies_witness:
  "applyOperation_index [rootNode, mkNode ''x1'' ''x'' 100 ''root'' False User1]
       (mkNode ''b1'' ''b'' 300 ''x1'' False User2)
     = applyOperation [rootNode, mkNode ''x1'' ''x'' 100 ''root'' False User1]
         (mkNode ''b1'' ''b'' 300 ''x1'' False User2)
   \<and> applyOperation_index [rootNode, mkNode ''x1'' ''x'' 100 ''root'' False User1]
       (mkNode ''a1'' ''a'' 200 ''root'' False User1)
     \<noteq> applyOperation [rootNode, mkNode ''x1'' ''x'' 100 ''root'' False User1]
         (mkNode ''a1'' ''a'' 200 ''root'' False User1)"
  using applyOperation_copies
          [of "[rootNode, mkNode ''x1'' ''x'' 100 ''root'' False User1]"
              "mkNode ''b1'' ''b'' 300 ''x1'' False User2"]
        applyOperation_copies
          [of "[rootNode, mkNode ''x1'' ''x'' 100 ''root'' False User1]"
              "mkNode ''a1'' ''a'' 200 ''root'' False User1"]
  by (simp add: rootNode_def mkNode_def earlier_sibling_def)

end
